theory Spec2Isabelle
  imports Main "HOL-Library.Word" "HOL-Library.Multiset"
begin

unbundle bit_operations_syntax

section \<open>Data model of the rule engine\<close>

text \<open>
  The rule nodes and their evaluation (\<^verbatim>\<open>Rule.check\<close>, the \<^verbatim>\<open>Eval\<close> methods of
  the expression nodes) and the mail-domain classifier (\<^verbatim>\<open>checkIP\<close>,
  \<^verbatim>\<open>ValidDomain\<close>) are embedded here. Go strings are byte strings and are
  modelled as \<^typ>\<open>string\<close>; \<^verbatim>\<open>Option\<close> is a \<^verbatim>\<open>uint64\<close> bitmap and is modelled as
  a 64-bit word.
\<close>

datatype Phase = pAny | pConnect | pHelo | pMfrom | pRto | pData | pMessage

datatype Action = aError | aNoresult | aAccept | aStall | aReject

type_synonym Option = "64 word"

text \<open>
  The bits of \<^verbatim>\<open>Option\<close> that the evaluator tests. In the constant block each name
  is \<^verbatim>\<open>1 << iota\<close>, with \<^verbatim>\<open>oHelo\<close> at \<^verbatim>\<open>iota = 1\<close>.
\<close>

definition oHelo :: Option where "oHelo = push_bit 1 1"
definition oEhlo :: Option where "oEhlo = push_bit 2 1"
definition oDomainValid :: Option where "oDomainValid = push_bit 21 1"
definition oDomainInvalid :: Option where "oDomainInvalid = push_bit 22 1"
definition oDomainTempfail :: Option where "oDomainTempfail = push_bit 23 1"
definition oHost :: Option where "oHost = push_bit 24 1"
definition oFrom :: Option where "oFrom = push_bit 25 1"
definition oAny :: Option where "oAny = oHost OR oEhlo OR oFrom"

text \<open>
  The calls an evaluation makes to the two collaborators that do I/O: the pattern
  source (\<^verbatim>\<open>c.getMatchList\<close>) and the DNS blocklist probe (\<^verbatim>\<open>c.getDnsblRes\<close>).
\<close>

datatype call = GetMatchList string | GetDnsblRes string

record rDNSResults =
  verified :: "string list"
  nofwd :: "string list"
  inconsist :: "string list"

record smtpTransaction =
  rip :: string
  rdns :: rDNSResults
  tlson :: bool

text \<open>
  Modelled from the spec: the declaration of \<^verbatim>\<open>Context\<close> is not among the sources.
  The fields are the ones the evaluation code reads and writes (\<^verbatim>\<open>c.trans\<close>,
  \<^verbatim>\<open>c.heloname\<close>, \<^verbatim>\<open>c.from\<close>, \<^verbatim>\<open>c.rcptto\<close>, \<^verbatim>\<open>c.withprops\<close>, \<^verbatim>\<open>c.rulemiss\<close>)
  plus the ordered log of DNS blocklist domains that produced a hit. \<open>trans_c\<close>
  and \<open>from_c\<close> stand for \<^verbatim>\<open>c.trans\<close> and \<^verbatim>\<open>c.from\<close>, whose names are taken in
  Isabelle. The field \<open>calls\<close> is a ghost field: it records, in order, the
  collaborator calls made so far, so that statements of the form "no probe is
  performed" can be expressed.
\<close>

record Context =
  trans_c :: smtpTransaction
  heloname :: string
  from_c :: string
  rcptto :: string
  withprops :: "string \<rightharpoonup> string"
  rulemiss :: bool
  dnsblhit :: "string list"
  calls :: "call list"

text \<open>
  The collaborators of the evaluation whose code is not among the sources are
  parameters: the pattern source \<^verbatim>\<open>getMatchList\<close>, the DNS blocklist probe
  \<^verbatim>\<open>getDnsblRes\<close>, the address classifier \<^verbatim>\<open>getAddrOpts\<close> and the three literal
  matchers. The pattern source and the probe are functions of their argument:
  within one evaluation the same question gets the same answer. \<open>rangeOrder\<close> is
  the order in which Go's \<^verbatim>\<open>range\<close> visits the keys of a map, which the language
  leaves unspecified.
\<close>

record Env =
  getMatchList :: "string \<Rightarrow> string list"
  getDnsblRes :: "string \<Rightarrow> bool"
  getAddrOpts :: "string \<Rightarrow> Context \<Rightarrow> Option"
  matchHost :: "string \<Rightarrow> string \<Rightarrow> bool"
  matchAddress :: "string \<Rightarrow> string \<Rightarrow> bool"
  matchIp :: "string \<Rightarrow> string \<Rightarrow> bool"
  rangeOrder :: "string list \<Rightarrow> string list"

text \<open>
  Modelled from the spec: \<^verbatim>\<open>Context.addDnsblHit\<close> is not among the sources; on a
  hit the domain is recorded in the ordered DNSBL-hit log.
\<close>

definition addDnsblHit :: "string \<Rightarrow> Context \<Rightarrow> Context" where
  "addDnsblHit domain c = c\<lparr>dnsblhit := dnsblhit c @ [domain]\<rparr>"

text \<open>A slice expression out of range panics; it is the only run-time error of the evaluator.\<close>

datatype error = SliceBoundsOutOfRange

datatype Expr =
    AndL "Expr list"
  | NotN Expr
  | OrN Expr Expr
  | AllN
  | TlsN bool
  | DNSblN string
  | MatchN string string "string \<Rightarrow> string \<Rightarrow> bool" "Context \<Rightarrow> string list"
  | matchSource string Expr Expr Expr
  | DblNode string Option
  | OptionN string Option "Context \<Rightarrow> Option"

record RClause =
  expr :: Expr
  withs :: "string \<rightharpoonup> string"

record Rule =
  clauses :: "RClause list"
  result :: Action
  requires :: Phase
  deferto :: Phase

section \<open>String helpers of the Go library\<close>

text \<open>\<^verbatim>\<open>strings.Split(s, sep)\<close> for a one-byte separator; the result is never empty.\<close>

fun Split :: "string \<Rightarrow> char \<Rightarrow> string list" where
  "Split [] sep = [[]]"
| "Split (x # xs) sep =
     (if x = sep then [] # Split xs sep
      else (let r = Split xs sep in (x # hd r) # tl r))"

text \<open>\<^verbatim>\<open>strings.IndexByte(s, b)\<close>: the index of the first \<open>b\<close>, or \<open>-1\<close>.\<close>

fun IndexByte :: "string \<Rightarrow> char \<Rightarrow> int" where
  "IndexByte [] b = -1"
| "IndexByte (x # xs) b =
     (if x = b then 0
      else (let i = IndexByte xs b in if i < 0 then -1 else i + 1))"

section \<open>Evaluation of expression nodes\<close>

text \<open>The two nested loops of \<^verbatim>\<open>MatchN.Eval\<close>: patterns outside, literals inside.\<close>

fun MatchN_literals :: "(string \<Rightarrow> string \<Rightarrow> bool) \<Rightarrow> string \<Rightarrow> string list \<Rightarrow> bool" where
  "MatchN_literals matcher p [] = False"
| "MatchN_literals matcher p (e # es) =
     (if matcher e p then True else MatchN_literals matcher p es)"

fun MatchN_patterns ::
  "(string \<Rightarrow> string \<Rightarrow> bool) \<Rightarrow> (Context \<Rightarrow> string list) \<Rightarrow> Context \<Rightarrow> string list \<Rightarrow> bool" where
  "MatchN_patterns matcher getter c [] = False"
| "MatchN_patterns matcher getter c (p # ps) =
     (if MatchN_literals matcher p (getter c) then True
      else MatchN_patterns matcher getter c ps)"

definition MatchN_Eval ::
  "Env \<Rightarrow> string \<Rightarrow> (string \<Rightarrow> string \<Rightarrow> bool) \<Rightarrow> (Context \<Rightarrow> string list) \<Rightarrow> Context
     \<Rightarrow> bool \<times> Context" where
  "MatchN_Eval env arg matcher getter c =
     (let plist = getMatchList env arg;
          c1 = c\<lparr>calls := calls c @ [GetMatchList arg]\<rparr>
      in if length plist = 0 then (False, c1\<lparr>rulemiss := True\<rparr>)
         else (MatchN_patterns matcher getter c1 plist, c1))"

text \<open>\<^verbatim>\<open>DNSblN.Eval\<close>.\<close>

definition DNSblN_Eval :: "Env \<Rightarrow> string \<Rightarrow> Context \<Rightarrow> bool \<times> Context" where
  "DNSblN_Eval env domain c =
     (if rip (trans_c c) = [] then (False, c)
      else (let s = Split (rip (trans_c c)) (CHR ''.'') in
        if length s \<noteq> 4 then (False, c)
        else (let ln = s ! 3 @ ''.'' @ s ! 2 @ ''.'' @ s ! 1 @ ''.'' @ s ! 0 @ ''.'' @ domain;
                  res = getDnsblRes env ln;
                  c1 = c\<lparr>calls := calls c @ [GetDnsblRes ln]\<rparr>
              in if res then (res, addDnsblHit domain c1) else (res, c1))))"

text \<open>
  \<^verbatim>\<open>DblNode.Eval\<close>. The map \<^verbatim>\<open>check\<close> is used as a set of names; it is modelled as
  the list of its keys without duplicates. \<open>check_add\<close> is the assignment
  \<^verbatim>\<open>check[k] = struct{}{}\<close>.
\<close>

definition check_add :: "string \<Rightarrow> string list \<Rightarrow> string list" where
  "check_add k check = (if k \<in> set check then check else check @ [k])"

text \<open>
  The loops over the reverse DNS names: \<^verbatim>\<open>s[:len(s)-1]\<close> panics when \<open>s\<close> is empty,
  since the upper bound is then \<open>-1\<close>.
\<close>

fun check_add_names :: "string list \<Rightarrow> string list \<Rightarrow> error + string list" where
  "check_add_names [] check = Inr check"
| "check_add_names (s # ss) check =
     (if int (length s) - 1 < 0 then Inl SliceBoundsOutOfRange
      else check_add_names ss (check_add (take (length s - 1) s) check))"

definition DblNode_check :: "Env \<Rightarrow> Option \<Rightarrow> Context \<Rightarrow> error + string list" where
  "DblNode_check env src c =
     (let check0 = [];
          check1 = (if (src AND (oEhlo OR oHelo)) \<noteq> 0 \<and> heloname c \<noteq> []
                    then check_add (heloname c) check0 else check0);
          check2 = (if (src AND oHost) = oHost
                    then (case check_add_names (verified (rdns (trans_c c))) check1 of
                            Inl e \<Rightarrow> Inl e
                          | Inr ck \<Rightarrow>
                         (case check_add_names (nofwd (rdns (trans_c c))) ck of
                            Inl e \<Rightarrow> Inl e
                          | Inr ck' \<Rightarrow> check_add_names (inconsist (rdns (trans_c c))) ck'))
                    else Inr check1)
      in case check2 of
           Inl e \<Rightarrow> Inl e
         | Inr ck \<Rightarrow>
             Inr (if (src AND oFrom) = oFrom \<and> from_c c \<noteq> []
                  then (let aopt = getAddrOpts env (from_c c) c in
                        if (aopt AND (oDomainValid OR oDomainInvalid OR oDomainTempfail)) \<noteq> 0
                        then (let idx = IndexByte (from_c c) (CHR ''@'')
                              in check_add (drop (nat (idx + 1)) (from_c c)) ck)
                        else ck)
                  else ck))"

text \<open>The probing loop; \<open>ret\<close> is the accumulated result.\<close>

fun DblNode_probe :: "Env \<Rightarrow> string \<Rightarrow> string list \<Rightarrow> bool \<Rightarrow> Context \<Rightarrow> bool \<times> Context" where
  "DblNode_probe env domain [] ret c = (ret, c)"
| "DblNode_probe env domain (s # ss) ret c =
     (let ln = s @ ''.'' @ domain;
          res = getDnsblRes env ln;
          c1 = c\<lparr>calls := calls c @ [GetDnsblRes ln]\<rparr>
      in if res then DblNode_probe env domain ss True (addDnsblHit domain c1)
         else DblNode_probe env domain ss ret c1)"

definition DblNode_Eval :: "Env \<Rightarrow> string \<Rightarrow> Option \<Rightarrow> Context \<Rightarrow> error + bool \<times> Context" where
  "DblNode_Eval env domain src c =
     (case DblNode_check env src c of
        Inl e \<Rightarrow> Inl e
      | Inr check \<Rightarrow>
          if length check = 0 then Inr (False, c)
          else Inr (DblNode_probe env domain (rangeOrder env check) False c))"

text \<open>
  \<^verbatim>\<open>Eval\<close> for every node type; \<open>AndL_Eval\<close> is the loop of \<^verbatim>\<open>AndL.Eval\<close>. The
  Context is passed through, and a panic ends the evaluation.
\<close>

fun Eval :: "Env \<Rightarrow> Expr \<Rightarrow> Context \<Rightarrow> error + bool \<times> Context"
  and AndL_Eval :: "Env \<Rightarrow> Expr list \<Rightarrow> Context \<Rightarrow> error + bool \<times> Context" where
  "Eval env (AndL nodes) c = AndL_Eval env nodes c"
| "Eval env (NotN node) c =
     (case Eval env node c of Inl e \<Rightarrow> Inl e | Inr (r, c') \<Rightarrow> Inr (\<not> r, c'))"
| "Eval env (OrN left right) c =
     (case Eval env left c of
        Inl e \<Rightarrow> Inl e
      | Inr (r, c') \<Rightarrow> if r then Inr (r, c') else Eval env right c')"
| "Eval env AllN c = Inr (True, c)"
| "Eval env (TlsN on) c = Inr (on = tlson (trans_c c), c)"
| "Eval env (DNSblN domain) c = Inr (DNSblN_Eval env domain c)"
| "Eval env (MatchN what arg matcher getter) c = Inr (MatchN_Eval env arg matcher getter c)"
| "Eval env (matchSource arg host ehlo from) c =
     (case Eval env host c of
        Inl e \<Rightarrow> Inl e
      | Inr (r, c') \<Rightarrow> if r then Inr (True, c') else
     (case Eval env ehlo c' of
        Inl e \<Rightarrow> Inl e
      | Inr (r', c'') \<Rightarrow> if r' then Inr (True, c'') else Eval env from c''))"
| "Eval env (DblNode domain src) c = DblNode_Eval env domain src c"
| "Eval env (OptionN what opts getter) c = Inr ((opts AND getter c) > 0, c)"
| "AndL_Eval env [] c = Inr (True, c)"
| "AndL_Eval env (n # ns) c =
     (case Eval env n c of
        Inl e \<Rightarrow> Inl e
      | Inr (r, c') \<Rightarrow> if \<not> r then Inr (r, c') else AndL_Eval env ns c')"

text \<open>The node constructors.\<close>

definition newHeloNode :: "Env \<Rightarrow> string \<Rightarrow> Expr" where
  "newHeloNode env arg = MatchN ''helo'' arg (matchHost env) (\<lambda>c. [heloname c])"

definition newHostNode :: "Env \<Rightarrow> string \<Rightarrow> Expr" where
  "newHostNode env arg = MatchN ''host'' arg (matchHost env) (\<lambda>c. verified (rdns (trans_c c)))"

definition newFromNode :: "Env \<Rightarrow> string \<Rightarrow> Expr" where
  "newFromNode env arg = MatchN ''from'' arg (matchAddress env) (\<lambda>c. [from_c c])"

definition newToNode :: "Env \<Rightarrow> string \<Rightarrow> Expr" where
  "newToNode env arg = MatchN ''to'' arg (matchAddress env) (\<lambda>c. [rcptto c])"

definition newIPNode :: "Env \<Rightarrow> string \<Rightarrow> Expr" where
  "newIPNode env arg = MatchN ''ip'' arg (matchIp env) (\<lambda>c. [rip (trans_c c)])"

definition matchFromHost :: "Env \<Rightarrow> string \<Rightarrow> string \<Rightarrow> bool" where
  "matchFromHost env addr host = matchAddress env addr (''@'' @ host)"

definition newSourceNode :: "Env \<Rightarrow> string \<Rightarrow> Expr" where
  "newSourceNode env arg =
     matchSource arg (newHostNode env arg) (newHeloNode env arg)
       (MatchN ''source_from'' arg (matchFromHost env) (\<lambda>c. [from_c c]))"

definition newDblNode :: "Option \<Rightarrow> string \<Rightarrow> Expr" where
  "newDblNode typ arg = DblNode arg typ"

section \<open>Checking a rule\<close>

text \<open>The loop of \<^verbatim>\<open>Rule.check\<close> over the clauses, and \<^verbatim>\<open>Rule.check\<close> itself.\<close>

fun check_clauses :: "Env \<Rightarrow> RClause list \<Rightarrow> Context \<Rightarrow> error + bool \<times> Context" where
  "check_clauses env [] c = Inr (False, c)"
| "check_clauses env (rc # rcs) c =
     (case Eval env (expr rc) c of
        Inl e \<Rightarrow> Inl e
      | Inr (res, c') \<Rightarrow>
          if rulemiss c' then Inr (False, c')
          else if \<not> res then check_clauses env rcs c'
          else Inr (res, c'\<lparr>withprops := withprops c' ++ withs rc\<rparr>))"

definition check :: "Env \<Rightarrow> Rule \<Rightarrow> Context \<Rightarrow> error + bool \<times> Context" where
  "check env r c = check_clauses env (clauses r) (c\<lparr>rulemiss := False\<rparr>)"

section \<open>Mail-domain validity\<close>

text \<open>
  \<^verbatim>\<open>dnsResult\<close> is an integer type whose constants are declared "in order from bad
  to good"; the order below is the order of those integers.
\<close>

datatype dnsResult = dnsUndef | dnsBad | dnsTempfail | dnsGood

fun dnsResult_int :: "dnsResult \<Rightarrow> int" where
  "dnsResult_int dnsUndef = 0"
| "dnsResult_int dnsBad = 1"
| "dnsResult_int dnsTempfail = 2"
| "dnsResult_int dnsGood = 3"

instantiation dnsResult :: linorder
begin

definition less_eq_dnsResult :: "dnsResult \<Rightarrow> dnsResult \<Rightarrow> bool" where
  "less_eq_dnsResult a b \<longleftrightarrow> dnsResult_int a \<le> dnsResult_int b"

definition less_dnsResult :: "dnsResult \<Rightarrow> dnsResult \<Rightarrow> bool" where
  "less_dnsResult a b \<longleftrightarrow> dnsResult_int a < dnsResult_int b"

instance
proof
  fix x y z :: dnsResult
  show "(x < y) = (x \<le> y \<and> \<not> y \<le> x)"
    by (auto simp: less_eq_dnsResult_def less_dnsResult_def)
  show "x \<le> x"
    by (simp add: less_eq_dnsResult_def)
  show "x \<le> y \<Longrightarrow> y \<le> z \<Longrightarrow> x \<le> z"
    by (simp add: less_eq_dnsResult_def)
  show "x \<le> y \<Longrightarrow> y \<le> x \<Longrightarrow> x = y"
    by (cases x; cases y) (simp_all add: less_eq_dnsResult_def)
  show "x \<le> y \<or> y \<le> x"
    by (auto simp: less_eq_dnsResult_def)
qed

end

text \<open>
  The resolver of package \<^verbatim>\<open>net\<close> is a parameter. An error of a lookup is either a
  \<^verbatim>\<open>*net.DNSError\<close>, with its text \<^verbatim>\<open>Err\<close> and the value of \<^verbatim>\<open>Temporary()\<close>, or
  some other error. An IP address is a byte slice. \<^verbatim>\<open>net.LookupMX\<close> returns a pair,
  the records and the error, and the pair is kept: the library leaves malformed
  records out and then returns the remaining records together with an error.
\<close>

datatype neterror = DNSError (Err: string) (Temporary: bool) | OtherError string

type_synonym IP = "8 word list"

datatype IPNet = net10 | net172 | net192 | ipv6private | ipv6siteloc

record MX =
  Host :: string
  Pref :: "16 word"

record Resolver =
  LookupMX :: "string \<Rightarrow> MX list \<times> neterror option"
  LookupIP :: "string \<Rightarrow> neterror + IP list"
  IsGlobalUnicast :: "IP \<Rightarrow> bool"
  Contains :: "IPNet \<Rightarrow> IP \<Rightarrow> bool"

text \<open>
  The errors that \<^verbatim>\<open>checkIP\<close> and \<^verbatim>\<open>ValidDomain\<close> return: the error of a lookup
  handed on as it is, or one made with \<^verbatim>\<open>fmt.Errorf\<close>, kept here with its
  arguments instead of the formatted text.
\<close>

datatype verror =
    LookupError neterror
  | MXTempfail neterror
  | NoIPs string
  | NotGlobalUnicast string IP
  | BadAddressSpace string IP
  | NullMX string
  | BogusMX "16 word" string

text \<open>The lookups a classification makes, in order.\<close>

datatype query = QueryMX string | QueryIP string

definition serverrstr :: string where
  "serverrstr = ''server misbehaving''"

fun isTemporary :: "neterror \<Rightarrow> bool" where
  "isTemporary (DNSError e t) = (t \<or> e = serverrstr)"
| "isTemporary (OtherError s) = False"

text \<open>
  \<^verbatim>\<open>strings.ToLower\<close> on the ASCII letters. The Go function also lowers letters
  outside ASCII; none of them lowers to a character of \<^verbatim>\<open>"."\<close> or
  \<^verbatim>\<open>"localhost."\<close>, the only strings the result is compared with.
\<close>

definition toLowerByte :: "char \<Rightarrow> char" where
  "toLowerByte ch =
     (if (65::nat) \<le> of_char ch \<and> of_char ch \<le> (90::nat)
      then char_of (of_char ch + (32::nat)) else ch)"

definition ToLower :: "string \<Rightarrow> string" where
  "ToLower s = map toLowerByte s"

fun checkIP_addrs :: "Resolver \<Rightarrow> string \<Rightarrow> IP list \<Rightarrow> dnsResult \<times> verror option" where
  "checkIP_addrs rs domain [] = (dnsGood, None)"
| "checkIP_addrs rs domain (i # addrs) =
     (if \<not> IsGlobalUnicast rs i then (dnsBad, Some (NotGlobalUnicast domain i))
      else if Contains rs net10 i \<or> Contains rs net172 i \<or> Contains rs net192 i \<or>
              Contains rs ipv6private i \<or> Contains rs ipv6siteloc i
      then (dnsBad, Some (BadAddressSpace domain i))
      else checkIP_addrs rs domain addrs)"

definition checkIP :: "Resolver \<Rightarrow> string \<Rightarrow> dnsResult \<times> verror option" where
  "checkIP rs domain =
     (case LookupIP rs domain of
        Inl err \<Rightarrow>
          if isTemporary err then (dnsTempfail, Some (LookupError err))
          else (dnsBad, Some (LookupError err))
      | Inr addrs \<Rightarrow>
          if length addrs = 0 then (dnsBad, Some (NoIPs domain))
          else checkIP_addrs rs domain addrs)"

text \<open>
  The loop of \<^verbatim>\<open>ValidDomain\<close> over the MX entries, with the running \<open>valid\<close> and
  \<open>verr\<close>; \<open>qs\<close> collects the lookups made (one \<^verbatim>\<open>net.LookupIP\<close> for each call
  of \<^verbatim>\<open>checkIP\<close>).
\<close>

fun ValidDomain_mxs ::
  "Resolver \<Rightarrow> string \<Rightarrow> MX list \<Rightarrow> dnsResult \<Rightarrow> verror option \<Rightarrow> query list
     \<Rightarrow> (dnsResult \<times> verror option) \<times> query list" where
  "ValidDomain_mxs rs domain [] valid verr qs = ((valid, verr), qs)"
| "ValidDomain_mxs rs domain (m # mxs) valid verr qs =
     (if Host m = ''.'' \<and> Pref m = 0 then ((dnsBad, Some (NullMX domain)), qs)
      else (let lc = ToLower (Host m) in
        if lc = ''.'' \<or> lc = ''localhost.''
        then ((dnsBad, Some (BogusMX (Pref m) (Host m))), qs)
        else (let (v, err) = checkIP rs (Host m);
                  qs' = qs @ [QueryIP (Host m)]
              in if v > valid then ValidDomain_mxs rs domain mxs v err qs'
                 else ValidDomain_mxs rs domain mxs valid verr qs')))"

definition ValidDomain :: "Resolver \<Rightarrow> string \<Rightarrow> (dnsResult \<times> verror option) \<times> query list" where
  "ValidDomain rs domain =
     (let (mxs, err) = LookupMX rs (domain @ ''.'') in
      case err of
        Some e \<Rightarrow>
          if isTemporary e
          then ((dnsTempfail, Some (MXTempfail e)), [QueryMX (domain @ ''.'')])
          else (checkIP rs (domain @ ''.''), [QueryMX (domain @ ''.''), QueryIP (domain @ ''.'')])
      | None \<Rightarrow>
          ValidDomain_mxs rs domain mxs dnsUndef None [QueryMX (domain @ ''.'')])"

section \<open>The \<^verbatim>\<open>source\<close> matcher as the spec words it\<close>

text \<open>
  The spec describes \<^verbatim>\<open>source HPAT\<close> as the expression
  \<^verbatim>\<open>(host HPAT or helo HPAT or from "@"+HPAT)\<close>. \<open>from_at_node\<close> is its third
  operand: a matcher of the MAIL FROM address, in the manner of \<^verbatim>\<open>from\<close>, against
  each resolved pattern of the argument with \<^verbatim>\<open>"@"\<close> put in front. \<open>source_or_expr\<close>
  is the whole expression. Both follow the spec's words, not the code.
\<close>

definition from_at_node :: "Env \<Rightarrow> string \<Rightarrow> Expr" where
  "from_at_node env arg =
     MatchN ''from'' arg (\<lambda>addr p. matchAddress env addr (''@'' @ p)) (\<lambda>c. [from_c c])"

definition source_or_expr :: "Env \<Rightarrow> string \<Rightarrow> Expr" where
  "source_or_expr env arg =
     OrN (newHostNode env arg) (OrN (newHeloNode env arg) (from_at_node env arg))"

section \<open>An example connection\<close>

text \<open>
  A concrete environment and Context at which the theorems below are instantiated.
  The pattern source knows one file, which is missing; every other argument is a
  literal pattern. The literal matchers are plain equality. One name is listed in
  the blocklist \<^verbatim>\<open>dbl.example.net\<close>. The remote end is an IPv6 client.
\<close>

definition example_env :: Env where
  "example_env =
     \<lparr>getMatchList = (\<lambda>a. if a = ''/missing/file'' then [] else [a]),
      getDnsblRes = (\<lambda>ln. ln = ''example.org.dbl.example.net''),
      getAddrOpts = (\<lambda>a c. oDomainValid),
      matchHost = (\<lambda>h p. h = p),
      matchAddress = (\<lambda>a p. a = p),
      matchIp = (\<lambda>i p. i = p),
      rangeOrder = rev\<rparr>"

definition example_context :: Context where
  "example_context =
     \<lparr>trans_c = \<lparr>rip = ''2001:db8::1'',
                 rdns = \<lparr>verified = [''mail.example.org.''], nofwd = [],
                         inconsist = [''example.org.'']\<rparr>,
                 tlson = False\<rparr>,
      heloname = ''mail.example.org'',
      from_c = ''joe@example.org'',
      rcptto = ''jim@example.com'',
      withprops = Map.empty,
      rulemiss = True,
      dnsblhit = [],
      calls = []\<rparr>"

text \<open>
  A resolver for three mail domains. The first has three MX targets: one whose
  lookup fails with the text of a SERVFAIL, one with an address, one without
  addresses. The second has a \<^verbatim>\<open>localhost.\<close> entry between two others. The third
  has a null MX record and a record with a malformed target, so that the lookup
  returns the null MX record together with an error; the domain itself has an
  address. Every other name has no MX record, which the lookup reports as the
  error \<^verbatim>\<open>no such host\<close>.
\<close>

definition example_resolver :: Resolver where
  "example_resolver =
     \<lparr>LookupMX = (\<lambda>name.
        if name = ''example.org.''
        then ([\<lparr>Host = ''mx1.example.org.'', Pref = 10\<rparr>,
               \<lparr>Host = ''mx2.example.org.'', Pref = 20\<rparr>,
               \<lparr>Host = ''mx3.example.org.'', Pref = 30\<rparr>], None)
        else if name = ''example.net.''
        then ([\<lparr>Host = ''mx1.example.org.'', Pref = 10\<rparr>,
               \<lparr>Host = ''LocalHost.'', Pref = 20\<rparr>,
               \<lparr>Host = ''mx2.example.org.'', Pref = 30\<rparr>], None)
        else if name = ''example.com.''
        then ([\<lparr>Host = ''.'', Pref = 0\<rparr>],
              Some (DNSError ''DNS response contained records which contain invalid names''
                      False))
        else ([], Some (DNSError ''no such host'' False))),
      LookupIP = (\<lambda>name.
        if name = ''mx1.example.org.'' then Inl (DNSError ''server misbehaving'' False)
        else if name = ''mx2.example.org.'' then Inr [[192, 0, 2, 1]]
        else if name = ''example.com.'' then Inr [[192, 0, 2, 2]]
        else Inr []),
      IsGlobalUnicast = (\<lambda>i. True),
      Contains = (\<lambda>n i. False)\<rparr>"

section \<open>Properties of the evaluator\<close>

subsection \<open>The loops of the pattern matcher\<close>

lemma MatchN_literals_iff: "MatchN_literals matcher p es \<longleftrightarrow> (\<exists>e\<in>set es. matcher e p)"
  by (induction es) auto

lemma MatchN_patterns_iff:
  "MatchN_patterns matcher getter c ps \<longleftrightarrow> (\<exists>p\<in>set ps. \<exists>e\<in>set (getter c). matcher e p)"
  by (induction ps) (auto simp: MatchN_literals_iff)

subsection \<open>What an evaluation leaves untouched\<close>

text \<open>An evaluation changes nothing but the signal, the hit log and the calls made.\<close>

lemma DblNode_probe_frame:
  "DblNode_probe env domain ss ret c = (b, c') \<Longrightarrow>
     trans_c c' = trans_c c \<and> heloname c' = heloname c \<and> from_c c' = from_c c \<and>
     rcptto c' = rcptto c \<and> withprops c' = withprops c"
proof (induction ss arbitrary: ret c)
  case Nil
  then show ?case by simp
next
  case (Cons s ss)
  show ?case
  proof (cases "getDnsblRes env (s @ ''.'' @ domain)")
    case True
    with Cons.prems Cons.IH[of True "addDnsblHit domain (c\<lparr>calls := calls c @ [GetDnsblRes (s @ ''.'' @ domain)]\<rparr>)"]
    show ?thesis by (simp add: addDnsblHit_def)
  next
    case False
    with Cons.prems Cons.IH[of ret "c\<lparr>calls := calls c @ [GetDnsblRes (s @ ''.'' @ domain)]\<rparr>"]
    show ?thesis by simp
  qed
qed

lemma Eval_frame:
  "Eval env e c = Inr (b, c') \<Longrightarrow>
     trans_c c' = trans_c c \<and> heloname c' = heloname c \<and> from_c c' = from_c c \<and>
     rcptto c' = rcptto c \<and> withprops c' = withprops c"
  "AndL_Eval env es c = Inr (b, c') \<Longrightarrow>
     trans_c c' = trans_c c \<and> heloname c' = heloname c \<and> from_c c' = from_c c \<and>
     rcptto c' = rcptto c \<and> withprops c' = withprops c"
proof (induction env e c and env es c arbitrary: b c' and b c' rule: Eval_AndL_Eval.induct)
  case (1 env nodes c)
  then show ?case by simp
next
  case (2 env node c)
  then show ?case by (auto split: sum.splits)
next
  case (3 env left right c)
  show ?case
  proof (cases "Eval env left c")
    case (Inl e)
    with "3.prems" show ?thesis by simp
  next
    case (Inr p)
    obtain r c1 where p: "p = (r, c1)" by (cases p)
    note l = "3.IH"(1)[OF Inr[unfolded p]]
    show ?thesis
    proof (cases r)
      case True
      with "3.prems" Inr p l show ?thesis by simp
    next
      case False
      with "3.prems" Inr p have "Eval env right c1 = Inr (b, c')" by simp
      from "3.IH"(2)[OF Inr p[symmetric] False this] l show ?thesis by simp
    qed
  qed
next
  case (4 env c)
  then show ?case by simp
next
  case (5 env on c)
  then show ?case by auto
next
  case (6 env domain c)
  then show ?case by (auto simp: DNSblN_Eval_def Let_def addDnsblHit_def split: if_splits)
next
  case (7 env what arg matcher getter c)
  then show ?case by (auto simp: MatchN_Eval_def Let_def split: if_splits)
next
  case (8 env arg host ehlo "from" c)
  show ?case
  proof (cases "Eval env host c")
    case (Inl e)
    with "8.prems" show ?thesis by simp
  next
    case (Inr p)
    obtain r c1 where p: "p = (r, c1)" by (cases p)
    note l = "8.IH"(1)[OF Inr[unfolded p]]
    show ?thesis
    proof (cases r)
      case True
      with "8.prems" Inr p l show ?thesis by simp
    next
      case False
      show ?thesis
      proof (cases "Eval env ehlo c1")
        case (Inl e)
        with "8.prems" Inr p False show ?thesis by simp
      next
        case Inr2: (Inr q)
        obtain r2 c2 where q: "q = (r2, c2)" by (cases q)
        note l2 = "8.IH"(2)[OF Inr p[symmetric] False Inr2[unfolded q]]
        show ?thesis
        proof (cases r2)
          case True
          with "8.prems" Inr p False Inr2 q l l2 show ?thesis by simp
        next
          case r2: False
          with "8.prems" Inr p False Inr2 q have "Eval env from c2 = Inr (b, c')" by simp
          from "8.IH"(3)[OF Inr p[symmetric] False Inr2 q[symmetric] r2 this] l l2
          show ?thesis by simp
        qed
      qed
    qed
  qed
next
  case (9 env domain src c)
  then show ?case by (auto simp: DblNode_Eval_def dest: DblNode_probe_frame split: sum.splits if_splits)
next
  case (10 env what opts getter c)
  then show ?case by auto
next
  case (11 env c)
  then show ?case by simp
next
  case (12 env n ns c)
  show ?case
  proof (cases "Eval env n c")
    case (Inl e)
    with "12.prems" show ?thesis by simp
  next
    case (Inr p)
    obtain r c1 where p: "p = (r, c1)" by (cases p)
    note l = "12.IH"(1)[OF Inr[unfolded p]]
    show ?thesis
    proof (cases r)
      case False
      with "12.prems" Inr p l show ?thesis by simp
    next
      case True
      with "12.prems" Inr p have "AndL_Eval env ns c1 = Inr (b, c')" by simp
      from "12.IH"(2)[OF Inr p[symmetric] _ this] True l show ?thesis by simp
    qed
  qed
qed

subsection \<open>Pattern matchers\<close>

lemma MatchN_Eval_empty:
  "getMatchList env arg = [] \<Longrightarrow>
     Eval env (MatchN what arg matcher getter) c =
       Inr (False, c\<lparr>calls := calls c @ [GetMatchList arg], rulemiss := True\<rparr>)"
  by (simp add: MatchN_Eval_def)

lemma MatchN_Eval_nonempty:
  "getMatchList env arg \<noteq> [] \<Longrightarrow>
     Eval env (MatchN what arg matcher getter) c =
       Inr ((\<exists>p\<in>set (getMatchList env arg).
               \<exists>e\<in>set (getter (c\<lparr>calls := calls c @ [GetMatchList arg]\<rparr>)). matcher e p),
            c\<lparr>calls := calls c @ [GetMatchList arg]\<rparr>)"
  by (simp add: MatchN_Eval_def MatchN_patterns_iff Let_def)

text \<open>
  Claim C6. For each of the generic pattern matchers \<^verbatim>\<open>helo\<close>, \<^verbatim>\<open>host\<close>, \<^verbatim>\<open>from\<close>,
  \<^verbatim>\<open>to\<close> and \<^verbatim>\<open>ip\<close>, with its matching function and the literals its getter
  supplies: if the argument resolves to an empty pattern list, \<^verbatim>\<open>Eval\<close> raises the
  data-unavailable signal and returns false; if the list is not empty, \<^verbatim>\<open>Eval\<close>
  leaves the signal as it is and returns true exactly when some literal matches
  some pattern of the list. In both cases the only other effect is the one call of
  the pattern source.
\<close>

theorem MatchN_Eval_pattern_list:
  assumes "(n, matcher, literals) \<in>
     {(newHeloNode env arg, matchHost env, [heloname c]),
      (newHostNode env arg, matchHost env, verified (rdns (trans_c c))),
      (newFromNode env arg, matchAddress env, [from_c c]),
      (newToNode env arg, matchAddress env, [rcptto c]),
      (newIPNode env arg, matchIp env, [rip (trans_c c)])}"
  shows "(getMatchList env arg = [] \<longrightarrow>
            Eval env n c =
              Inr (False, c\<lparr>calls := calls c @ [GetMatchList arg], rulemiss := True\<rparr>)) \<and>
         (getMatchList env arg \<noteq> [] \<longrightarrow>
            Eval env n c =
              Inr ((\<exists>p\<in>set (getMatchList env arg). \<exists>e\<in>set literals. matcher e p),
                   c\<lparr>calls := calls c @ [GetMatchList arg]\<rparr>))"
  using assms
  by (auto simp: newHeloNode_def newHostNode_def newFromNode_def newToNode_def newIPNode_def
      MatchN_Eval_empty MatchN_Eval_nonempty simp del: Eval.simps)

theorem MatchN_Eval_pattern_list_witness:
  "Eval example_env (newFromNode example_env ''/missing/file'') example_context =
     Inr (False, example_context\<lparr>calls := [GetMatchList ''/missing/file''], rulemiss := True\<rparr>) \<and>
   Eval example_env (newHostNode example_env ''mail.example.org.'')
     (example_context\<lparr>rulemiss := False\<rparr>) =
     Inr (True, example_context\<lparr>calls := [GetMatchList ''mail.example.org.''], rulemiss := False\<rparr>)"
  using MatchN_Eval_pattern_list[of "newFromNode example_env ''/missing/file''"
      "matchAddress example_env" "[from_c example_context]" example_env "''/missing/file''"
      example_context]
    MatchN_Eval_pattern_list[of "newHostNode example_env ''mail.example.org.''"
      "matchHost example_env" "verified (rdns (trans_c (example_context\<lparr>rulemiss := False\<rparr>)))"
      example_env "''mail.example.org.''" "example_context\<lparr>rulemiss := False\<rparr>"]
  by (simp add: example_env_def example_context_def)

subsection \<open>Short-circuit OR\<close>

text \<open>
  Claim C7. \<^verbatim>\<open>OrN.Eval\<close> evaluates the left operand first; when that gives true,
  the result and the Context are those of the left operand alone, so the right
  operand is not evaluated and has no effect. Hence the expression
  \<^verbatim>\<open>all or from FILE\<close> is true in every Context and leaves it unchanged (no call of
  the pattern source, no signal), and a rule with this clause, alone or inside
  the implicit AND sequence, matches in every Context with the signal cleared,
  whatever the pattern source returns for \<^verbatim>\<open>FILE\<close>.
\<close>

theorem OrN_Eval_short_circuit:
  "(Eval env left c = Inr (True, c') \<longrightarrow> Eval env (OrN left right) c = Inr (True, c')) \<and>
   Eval env (OrN AllN (newFromNode env file)) c = Inr (True, c) \<and>
   check env \<lparr>clauses = [\<lparr>expr = OrN AllN (newFromNode env file), withs = w\<rparr>],
               result = a, requires = p, deferto = q\<rparr> c =
     Inr (True, c\<lparr>rulemiss := False, withprops := withprops c ++ w\<rparr>) \<and>
   check env \<lparr>clauses = [\<lparr>expr = AndL [OrN AllN (newFromNode env file)], withs = w\<rparr>],
               result = a, requires = p, deferto = q\<rparr> c =
     Inr (True, c\<lparr>rulemiss := False, withprops := withprops c ++ w\<rparr>)"
  by (simp add: check_def)

theorem OrN_Eval_short_circuit_witness:
  "Eval example_env (TlsN False) example_context = Inr (True, example_context) \<and>
   Eval example_env (OrN (TlsN False) (newFromNode example_env ''/missing/file'')) example_context =
     Inr (True, example_context)"
  using OrN_Eval_short_circuit[of example_env "TlsN False" example_context example_context
      "newFromNode example_env ''/missing/file''"]
  by (simp add: example_context_def)

subsection \<open>The source matcher\<close>

lemma matchSource_Eval_as_OrN:
  "Eval env (matchSource arg host ehlo from) c = Eval env (OrN host (OrN ehlo from)) c"
  by (auto split: sum.splits)

lemma matchFromHost_eq: "matchFromHost env = (\<lambda>addr p. matchAddress env addr (''@'' @ p))"
  by (intro ext) (simp add: matchFromHost_def)

text \<open>
  Claim C8. Evaluating the node that \<^verbatim>\<open>newSourceNode\<close> builds gives the same result
  and the same Context (signal, DNSBL hits, calls made) as evaluating the OR
  expression \<open>source_or_expr\<close> of the spec, in the order host, helo, from. The
  third operand of that expression behaves as the \<^verbatim>\<open>from\<close> matcher does when the
  pattern source puts \<^verbatim>\<open>"@"\<close> in front of every pattern it resolves.
\<close>

theorem newSourceNode_Eval_refines_or:
  "Eval env (newSourceNode env arg) c = Eval env (source_or_expr env arg) c \<and>
   Eval env (from_at_node env arg) c =
     Eval (env\<lparr>getMatchList := \<lambda>a. map ((@) ''@'') (getMatchList env a)\<rparr>)
       (newFromNode env arg) c"
proof
  have "Eval env (newSourceNode env arg) c =
          Eval env (OrN (newHostNode env arg) (OrN (newHeloNode env arg)
            (MatchN ''source_from'' arg (matchFromHost env) (\<lambda>c. [from_c c])))) c"
    unfolding newSourceNode_def by (rule matchSource_Eval_as_OrN)
  also have "\<dots> = Eval env (source_or_expr env arg) c"
    by (simp add: source_or_expr_def from_at_node_def matchFromHost_eq split: sum.splits)
  finally show "Eval env (newSourceNode env arg) c = Eval env (source_or_expr env arg) c" .
next
  show "Eval env (from_at_node env arg) c =
     Eval (env\<lparr>getMatchList := \<lambda>a. map ((@) ''@'') (getMatchList env a)\<rparr>)
       (newFromNode env arg) c"
    by (cases "getMatchList env arg = []")
       (simp_all add: from_at_node_def newFromNode_def MatchN_Eval_def MatchN_patterns_iff Let_def)
qed

subsection \<open>DNS blocklists\<close>

text \<open>
  Claim C10. When the remote IP string is empty or does not split on \<^verbatim>\<open>"."\<close> into
  exactly four fields, \<^verbatim>\<open>DNSblN.Eval\<close> returns false and leaves the Context as it
  is: no probe is made, no hit is recorded, the signal is not raised.
\<close>

theorem DNSblN_Eval_not_ipv4:
  assumes "rip (trans_c c) = [] \<or> length (Split (rip (trans_c c)) (CHR ''.'')) \<noteq> 4"
  shows "Eval env (DNSblN domain) c = Inr (False, c)"
  using assms by (auto simp: DNSblN_Eval_def Let_def)

theorem DNSblN_Eval_not_ipv4_witness:
  "length (Split (rip (trans_c example_context)) (CHR ''.'')) \<noteq> 4 \<and>
   Eval example_env (DNSblN ''sbl.example.net'') example_context = Inr (False, example_context)"
  using DNSblN_Eval_not_ipv4[of example_context example_env "''sbl.example.net''"]
  by (simp add: example_context_def)

subsection \<open>Domain blocklists: collecting the names\<close>

lemma check_add_set: "set (check_add k ck) = insert k (set ck)"
  by (auto simp: check_add_def)

lemma check_add_distinct: "distinct ck \<Longrightarrow> distinct (check_add k ck)"
  by (simp add: check_add_def)

lemma check_add_names_eq:
  "check_add_names ss ck =
     (if [] \<in> set ss then Inl SliceBoundsOutOfRange
      else Inr (fold (\<lambda>s. check_add (butlast s)) ss ck))"
proof (induction ss arbitrary: ck)
  case Nil
  then show ?case by simp
next
  case (Cons s ss)
  show ?case
  proof (cases "s = []")
    case True
    then show ?thesis by simp
  next
    case False
    then have "\<not> int (length s) - 1 < 0" by (cases s) simp_all
    with False Cons.IH show ?thesis by (auto simp: butlast_conv_take)
  qed
qed

lemma set_fold_check_add:
  "set (fold (\<lambda>s. check_add (butlast s)) ss ck) = set ck \<union> butlast ` set ss"
  by (induction ss arbitrary: ck) (auto simp: check_add_set)

lemma distinct_fold_check_add:
  "distinct ck \<Longrightarrow> distinct (fold (\<lambda>s. check_add (butlast s)) ss ck)"
  by (induction ss arbitrary: ck) (auto simp: check_add_distinct)

lemma DblNode_check_host:
  assumes "(src AND oHost) = oHost"
  shows "DblNode_check env src c =
     (if [] \<in> set (verified (rdns (trans_c c))) \<union> set (nofwd (rdns (trans_c c))) \<union>
               set (inconsist (rdns (trans_c c)))
      then Inl SliceBoundsOutOfRange
      else Inr (let ck = fold (\<lambda>s. check_add (butlast s))
                   (verified (rdns (trans_c c)) @ nofwd (rdns (trans_c c)) @
                    inconsist (rdns (trans_c c)))
                   (if (src AND (oEhlo OR oHelo)) \<noteq> 0 \<and> heloname c \<noteq> []
                    then [heloname c] else [])
                in if (src AND oFrom) = oFrom \<and> from_c c \<noteq> [] \<and>
                      (getAddrOpts env (from_c c) c AND
                         (oDomainValid OR oDomainInvalid OR oDomainTempfail)) \<noteq> 0
                   then check_add (drop (nat (IndexByte (from_c c) (CHR ''@'') + 1)) (from_c c)) ck
                   else ck))"
  using assms by (simp add: DblNode_check_def check_add_names_eq Let_def check_add_def)

text \<open>
  Claim C9. With the host source selected, \<^verbatim>\<open>DblNode.Eval\<close> panics on the slice
  \<^verbatim>\<open>s[:len(s)-1]\<close> exactly when one of the three reverse DNS lists holds the empty
  string. When none does, the evaluation returns a result, and the names collected
  for probing are, without duplicates, the HELO name (when selected and not empty),
  every listed reverse DNS name with its last character removed, and the domain
  of the MAIL FROM address (when selected and the address is classified).
\<close>

theorem DblNode_Eval_host_total:
  assumes "(src AND oHost) = oHost"
  shows "(Eval env (DblNode domain src) c = Inl SliceBoundsOutOfRange \<longleftrightarrow>
            [] \<in> set (verified (rdns (trans_c c))) \<union> set (nofwd (rdns (trans_c c))) \<union>
                  set (inconsist (rdns (trans_c c)))) \<and>
         ([] \<notin> set (verified (rdns (trans_c c))) \<union> set (nofwd (rdns (trans_c c))) \<union>
                 set (inconsist (rdns (trans_c c))) \<longrightarrow>
            (\<exists>b c'. Eval env (DblNode domain src) c = Inr (b, c')) \<and>
            (\<exists>check. DblNode_check env src c = Inr check \<and> distinct check \<and>
               set check =
                 (if (src AND (oEhlo OR oHelo)) \<noteq> 0 \<and> heloname c \<noteq> []
                  then {heloname c} else {}) \<union>
                 butlast ` (set (verified (rdns (trans_c c))) \<union> set (nofwd (rdns (trans_c c))) \<union>
                            set (inconsist (rdns (trans_c c)))) \<union>
                 (if (src AND oFrom) = oFrom \<and> from_c c \<noteq> [] \<and>
                     (getAddrOpts env (from_c c) c AND
                        (oDomainValid OR oDomainInvalid OR oDomainTempfail)) \<noteq> 0
                  then {drop (nat (IndexByte (from_c c) (CHR ''@'') + 1)) (from_c c)}
                  else {})))"
proof (cases "[] \<in> set (verified (rdns (trans_c c))) \<union> set (nofwd (rdns (trans_c c))) \<union>
                  set (inconsist (rdns (trans_c c)))")
  case True
  with DblNode_check_host[OF assms, of env c] show ?thesis
    by (simp add: DblNode_Eval_def)
next
  case False
  define H where "H = (if (src AND (oEhlo OR oHelo)) \<noteq> 0 \<and> heloname c \<noteq> []
                    then [heloname c] else [])"
  define N where "N = verified (rdns (trans_c c)) @ nofwd (rdns (trans_c c)) @
                    inconsist (rdns (trans_c c))"
  define ck where "ck = fold (\<lambda>s. check_add (butlast s)) N H"
  define fromok where "fromok \<longleftrightarrow> (src AND oFrom) = oFrom \<and> from_c c \<noteq> [] \<and>
                      (getAddrOpts env (from_c c) c AND
                         (oDomainValid OR oDomainInvalid OR oDomainTempfail)) \<noteq> 0"
  define F where "F = drop (nat (IndexByte (from_c c) (CHR ''@'') + 1)) (from_c c)"
  have d: "distinct ck" unfolding ck_def by (rule distinct_fold_check_add) (simp add: H_def)
  have s: "set ck = set H \<union> butlast ` set N"
    unfolding ck_def by (rule set_fold_check_add)
  from False DblNode_check_host[OF assms, of env c]
  have ck: "DblNode_check env src c = Inr (if fromok then check_add F ck else ck)"
    unfolding ck_def N_def H_def fromok_def F_def Let_def by simp
  have d': "distinct (if fromok then check_add F ck else ck)"
    using d by (simp add: check_add_distinct)
  have "set (if fromok then check_add F ck else ck) =
          set H \<union> butlast ` set N \<union> (if fromok then {F} else {})"
    using s by (simp add: check_add_set)
  then have s': "set (if fromok then check_add F ck else ck) =
                 (if (src AND (oEhlo OR oHelo)) \<noteq> 0 \<and> heloname c \<noteq> []
                  then {heloname c} else {}) \<union>
                 butlast ` (set (verified (rdns (trans_c c))) \<union> set (nofwd (rdns (trans_c c))) \<union>
                            set (inconsist (rdns (trans_c c)))) \<union>
                 (if (src AND oFrom) = oFrom \<and> from_c c \<noteq> [] \<and>
                     (getAddrOpts env (from_c c) c AND
                        (oDomainValid OR oDomainInvalid OR oDomainTempfail)) \<noteq> 0
                  then {drop (nat (IndexByte (from_c c) (CHR ''@'') + 1)) (from_c c)}
                  else {})"
    unfolding H_def N_def fromok_def F_def by (simp add: Un_assoc)
  have ev: "\<exists>b c'. Eval env (DblNode domain src) c = Inr (b, c')"
    using ck by (cases "DblNode_probe env domain
                   (rangeOrder env (if fromok then check_add F ck else ck)) False c")
                (auto simp: DblNode_Eval_def)
  then have "Eval env (DblNode domain src) c \<noteq> Inl SliceBoundsOutOfRange"
    by auto
  with False ev ck d' s' show ?thesis by blast
qed

theorem DblNode_Eval_host_total_witness:
  "(oAny AND oHost) = oHost \<and>
   [] \<notin> set (verified (rdns (trans_c example_context))) \<union>
          set (nofwd (rdns (trans_c example_context))) \<union>
          set (inconsist (rdns (trans_c example_context))) \<and>
   DblNode_check example_env oAny example_context = Inr [''mail.example.org'', ''example.org''] \<and>
   Eval example_env (DblNode ''dbl.example.net'' oAny)
     (example_context\<lparr>trans_c := (trans_c example_context)\<lparr>rdns :=
        \<lparr>verified = [''mail.example.org.''], nofwd = [''''], inconsist = []\<rparr>\<rparr>\<rparr>) =
     Inl SliceBoundsOutOfRange"
proof -
  have h: "(oAny AND oHost) = oHost"
    by (simp add: oAny_def oHost_def oEhlo_def oFrom_def)
  show ?thesis
    using h DblNode_Eval_host_total[OF h, of example_env "''dbl.example.net''" example_context]
      DblNode_Eval_host_total[OF h, of example_env "''dbl.example.net''"
        "example_context\<lparr>trans_c := (trans_c example_context)\<lparr>rdns :=
        \<lparr>verified = [''mail.example.org.''], nofwd = [''''], inconsist = []\<rparr>\<rparr>\<rparr>"]
    by (simp add: example_context_def example_env_def DblNode_check_def check_add_def
        oAny_def oHost_def oEhlo_def oFrom_def oHelo_def oDomainValid_def oDomainInvalid_def
        oDomainTempfail_def)
qed

subsection \<open>Domain blocklists: probing the names\<close>

lemma DblNode_probe_eq:
  "DblNode_probe env domain ss ret c =
     (ret \<or> (\<exists>s\<in>set ss. getDnsblRes env (s @ ''.'' @ domain)),
      c\<lparr>dnsblhit := dnsblhit c @
           replicate (length (filter (\<lambda>s. getDnsblRes env (s @ ''.'' @ domain)) ss)) domain,
        calls := calls c @ map (\<lambda>s. GetDnsblRes (s @ ''.'' @ domain)) ss\<rparr>)"
proof (induction ss arbitrary: ret c)
  case Nil
  then show ?case by simp
next
  case (Cons s ss)
  show ?case
  proof (cases "getDnsblRes env (s @ ''.'' @ domain)")
    case True
    then show ?thesis
      by (simp add: Cons.IH addDnsblHit_def replicate_append_same)
  next
    case False
    then show ?thesis
      by (simp add: Cons.IH)
  qed
qed

lemma length_filter_mset:
  "mset xs = mset ys \<Longrightarrow> length (filter P xs) = length (filter P ys)"
  by (metis mset_filter size_mset)

lemma DblNode_check_rangeOrder:
  "DblNode_check (env\<lparr>rangeOrder := order'\<rparr>) src c = DblNode_check env src c"
  unfolding DblNode_check_def Let_def by (simp cong: sum.case_cong if_cong)

lemma DblNode_Eval_eq:
  assumes "DblNode_check env src c = Inr ks" and "mset (rangeOrder env ks) = mset ks"
  shows "Eval env (DblNode domain src) c =
     Inr ((\<exists>s\<in>set ks. getDnsblRes env (s @ ''.'' @ domain)),
      c\<lparr>dnsblhit := dnsblhit c @
           replicate (length (filter (\<lambda>s. getDnsblRes env (s @ ''.'' @ domain)) ks)) domain,
        calls := calls c @ map (\<lambda>s. GetDnsblRes (s @ ''.'' @ domain)) (rangeOrder env ks)\<rparr>)"
proof (cases "ks = []")
  case True
  with assms show ?thesis by (simp add: DblNode_Eval_def)
next
  case False
  from assms(2) have "set (rangeOrder env ks) = set ks" by (rule mset_eq_setD)
  moreover from assms(2) have "length (filter (\<lambda>s. getDnsblRes env (s @ ''.'' @ domain)) (rangeOrder env ks)) =
      length (filter (\<lambda>s. getDnsblRes env (s @ ''.'' @ domain)) ks)"
    by (rule length_filter_mset)
  ultimately show ?thesis using assms(1) False
    by (simp add: DblNode_Eval_def DblNode_probe_eq)
qed

text \<open>
  Claim C3. Let the order in which \<^verbatim>\<open>range\<close> visits the names collected by
  \<^verbatim>\<open>DblNode.Eval\<close> be any permutation of them, and \<open>order'\<close> any other. Either the
  evaluation panics under both orders, or under both it returns the same boolean
  and the same Context up to the order of the probes made. The boolean is true
  exactly when some collected name is listed; every collected name is probed
  once, also after a hit; and each hit appends the DBL domain of the node, not
  the name that hit, to the hit log.
\<close>

theorem DblNode_Eval_order_independent:
  assumes "\<forall>ks. mset (rangeOrder env ks) = mset ks"
    and "\<forall>ks. mset (order' ks) = mset ks"
  shows "(\<exists>e. Eval env (DblNode domain src) c = Inl e \<and>
              Eval (env\<lparr>rangeOrder := order'\<rparr>) (DblNode domain src) c = Inl e) \<or>
         (\<exists>b c1 c2 ks.
            DblNode_check env src c = Inr ks \<and>
            Eval env (DblNode domain src) c = Inr (b, c1) \<and>
            Eval (env\<lparr>rangeOrder := order'\<rparr>) (DblNode domain src) c = Inr (b, c2) \<and>
            c2\<lparr>calls := calls c1\<rparr> = c1 \<and>
            mset (calls c2) = mset (calls c1) \<and>
            b = (\<exists>s\<in>set ks. getDnsblRes env (s @ ''.'' @ domain)) \<and>
            c1\<lparr>calls := calls c\<rparr> =
              c\<lparr>dnsblhit := dnsblhit c @
                   replicate (length (filter (\<lambda>s. getDnsblRes env (s @ ''.'' @ domain)) ks))
                     domain\<rparr> \<and>
            mset (calls c1) =
              mset (calls c) + mset (map (\<lambda>s. GetDnsblRes (s @ ''.'' @ domain)) ks))"
proof (cases "DblNode_check env src c")
  case (Inl e)
  then have "Eval env (DblNode domain src) c = Inl e"
    and "Eval (env\<lparr>rangeOrder := order'\<rparr>) (DblNode domain src) c = Inl e"
    by (simp_all add: DblNode_Eval_def DblNode_check_rangeOrder)
  then show ?thesis by blast
next
  case (Inr ks)
  let ?env' = "env\<lparr>rangeOrder := order'\<rparr>"
  let ?hit = "\<lambda>s. getDnsblRes env (s @ ''.'' @ domain)"
  let ?probe = "\<lambda>s. GetDnsblRes (s @ ''.'' @ domain)"
  from assms(1) have p1: "mset (rangeOrder env ks) = mset ks" by simp
  from assms(2) have p2: "mset (rangeOrder ?env' ks) = mset ks" by simp
  from Inr have ck': "DblNode_check ?env' src c = Inr ks"
    by (simp add: DblNode_check_rangeOrder)
  note e1 = DblNode_Eval_eq[OF Inr p1, of domain]
  note e2 = DblNode_Eval_eq[OF ck' p2, of domain]
  have m1: "mset (map ?probe (rangeOrder env ks)) = mset (map ?probe ks)"
    using p1 by (metis mset_map)
  have m2: "mset (map ?probe (order' ks)) = mset (map ?probe ks)"
    using assms(2) by (metis mset_map)
  show ?thesis
    apply (rule disjI2)
    apply (rule exI[of _ "\<exists>s\<in>set ks. ?hit s"])
    apply (rule exI[of _ "c\<lparr>dnsblhit := dnsblhit c @ replicate (length (filter ?hit ks)) domain,
        calls := calls c @ map ?probe (rangeOrder env ks)\<rparr>"])
    apply (rule exI[of _ "c\<lparr>dnsblhit := dnsblhit c @ replicate (length (filter ?hit ks)) domain,
        calls := calls c @ map ?probe (order' ks)\<rparr>"])
    apply (rule exI[of _ ks])
    using Inr e1 e2 m1 m2 apply simp
    done
qed

theorem DblNode_Eval_order_independent_witness:
  "(\<forall>ks. mset (rangeOrder example_env ks) = mset ks) \<and>
   (\<forall>ks::string list. mset ((\<lambda>ks. ks) ks) = mset ks) \<and>
   Eval example_env (DblNode ''dbl.example.net'' oAny) example_context =
     Inr (True, example_context\<lparr>dnsblhit := [''dbl.example.net''],
            calls := [GetDnsblRes ''example.org.dbl.example.net'',
                      GetDnsblRes ''mail.example.org.dbl.example.net'']\<rparr>) \<and>
   Eval (example_env\<lparr>rangeOrder := \<lambda>ks. ks\<rparr>) (DblNode ''dbl.example.net'' oAny) example_context =
     Inr (True, example_context\<lparr>dnsblhit := [''dbl.example.net''],
            calls := [GetDnsblRes ''mail.example.org.dbl.example.net'',
                      GetDnsblRes ''example.org.dbl.example.net'']\<rparr>)"
proof -
  have h1: "\<forall>ks. mset (rangeOrder example_env ks) = mset ks"
    by (simp add: example_env_def)
  have h2: "\<forall>ks::string list. mset ((\<lambda>ks. ks) ks) = mset ks"
    by simp
  have ck: "DblNode_check example_env oAny example_context =
              Inr [''mail.example.org'', ''example.org'']"
    by (simp add: example_context_def example_env_def DblNode_check_def check_add_def
        oAny_def oHost_def oEhlo_def oFrom_def oHelo_def oDomainValid_def oDomainInvalid_def
        oDomainTempfail_def)
  have r1: "rangeOrder example_env [''mail.example.org'', ''example.org''] =
              [''example.org'', ''mail.example.org'']"
    by (simp add: example_env_def)
  have g: "getDnsblRes example_env = (\<lambda>ln. ln = ''example.org.dbl.example.net'')"
    by (simp add: example_env_def)
  have e1: "Eval example_env (DblNode ''dbl.example.net'' oAny) example_context =
     Inr (True, example_context\<lparr>dnsblhit := [''dbl.example.net''],
            calls := [GetDnsblRes ''example.org.dbl.example.net'',
                      GetDnsblRes ''mail.example.org.dbl.example.net'']\<rparr>)"
    by (simp add: DblNode_Eval_def ck r1 g addDnsblHit_def Let_def) (simp add: example_context_def)
  have e2: "Eval (example_env\<lparr>rangeOrder := \<lambda>ks. ks\<rparr>) (DblNode ''dbl.example.net'' oAny)
       example_context =
     Inr (True, example_context\<lparr>dnsblhit := [''dbl.example.net''],
            calls := [GetDnsblRes ''mail.example.org.dbl.example.net'',
                      GetDnsblRes ''example.org.dbl.example.net'']\<rparr>)"
    by (simp add: DblNode_Eval_def DblNode_check_rangeOrder ck g addDnsblHit_def Let_def)
       (simp add: example_context_def)
  show ?thesis
    using DblNode_Eval_order_independent[OF h1 h2, of "''dbl.example.net''" oAny example_context]
      h1 h2 e1 e2
    by (intro conjI)
qed

section \<open>Properties of the rule check\<close>

lemma check_clauses_no_match:
  "check_clauses env pre c0 = Inr (False, c1) \<Longrightarrow> \<not> rulemiss c1 \<Longrightarrow>
     check_clauses env (pre @ rest) c0 = check_clauses env rest c1 \<and> withprops c1 = withprops c0"
proof (induction pre arbitrary: c0)
  case Nil
  then show ?case by simp
next
  case (Cons rc pre)
  show ?case
  proof (cases "Eval env (expr rc) c0")
    case (Inl e)
    with Cons.prems show ?thesis by simp
  next
    case (Inr p)
    obtain res c' where p: "p = (res, c')" by (cases p)
    from Inr p have ev: "Eval env (expr rc) c0 = Inr (res, c')" by simp
    from Eval_frame(1)[OF ev] have wp: "withprops c' = withprops c0" by simp
    have nomiss: "\<not> rulemiss c'"
    proof
      assume "rulemiss c'"
      with Cons.prems(1) ev have "c1 = c'" by simp
      with Cons.prems(2) \<open>rulemiss c'\<close> show False by simp
    qed
    have nores: "\<not> res"
    proof
      assume res
      with Cons.prems(1) ev nomiss show False by simp
    qed
    from Cons.prems(1) ev nomiss nores have "check_clauses env pre c' = Inr (False, c1)"
      by simp
    from Cons.IH[OF this Cons.prems(2)] ev nomiss nores wp show ?thesis by simp
  qed
qed

text \<open>
  Claim C1. \<^verbatim>\<open>Rule.check\<close> first clears the data-unavailable signal \<open>rulemiss\<close> and
  then evaluates the clauses in order. Let the clauses before \<open>rc\<close> have been
  evaluated without a match and without the signal (the loop over \<open>pre\<close>, started
  with the signal cleared, ends with no match in a Context \<open>c1\<close> whose signal is
  not set). If the signal is set after the expression of \<open>rc\<close> has been evaluated,
  then the check of the whole rule is no match, whatever boolean \<open>b\<close> the
  expression gave and whatever clauses \<open>post\<close> follow: they are not evaluated, the
  Context returned is the one the expression of \<open>rc\<close> left, and the with-properties
  are those of the start, so nothing of \<open>rc\<close> has been merged.
\<close>

theorem check_rulemiss_abandons_rule:
  assumes "check_clauses env pre (c\<lparr>rulemiss := False\<rparr>) = Inr (False, c1)"
    and "\<not> rulemiss c1"
    and "Eval env (expr rc) c1 = Inr (b, c2)"
    and "rulemiss c2"
  shows "check env \<lparr>clauses = pre @ rc # post, result = a, requires = p, deferto = q\<rparr> c =
           Inr (False, c2) \<and>
         withprops c2 = withprops c"
proof -
  from check_clauses_no_match[OF assms(1,2), of "rc # post"]
  have step: "check_clauses env (pre @ rc # post) (c\<lparr>rulemiss := False\<rparr>) =
                check_clauses env (rc # post) c1"
    and wp1: "withprops c1 = withprops c" by simp_all
  from assms(3,4) have "check_clauses env (rc # post) c1 = Inr (False, c2)" by simp
  with step have "check env \<lparr>clauses = pre @ rc # post, result = a, requires = p, deferto = q\<rparr> c =
           Inr (False, c2)" by (simp add: check_def)
  moreover from Eval_frame(1)[OF assms(3)] wp1 have "withprops c2 = withprops c" by simp
  ultimately show ?thesis by simp
qed

theorem check_rulemiss_abandons_rule_witness:
  "check example_env
     \<lparr>clauses = [\<lparr>expr = TlsN True, withs = Map.empty\<rparr>,
                 \<lparr>expr = NotN (newFromNode example_env ''/missing/file''),
                  withs = [''message'' \<mapsto> ''Hi'']\<rparr>,
                 \<lparr>expr = AllN, withs = [''message'' \<mapsto> ''Bye'']\<rparr>],
      result = aNoresult, requires = pMfrom, deferto = pAny\<rparr> example_context =
     Inr (False, example_context\<lparr>rulemiss := True, calls := [GetMatchList ''/missing/file'']\<rparr>) \<and>
   Eval example_env (NotN (newFromNode example_env ''/missing/file''))
     (example_context\<lparr>rulemiss := False\<rparr>) =
     Inr (True, example_context\<lparr>rulemiss := True, calls := [GetMatchList ''/missing/file'']\<rparr>)"
  using check_rulemiss_abandons_rule[of example_env "[\<lparr>expr = TlsN True, withs = Map.empty\<rparr>]"
      example_context "example_context\<lparr>rulemiss := False\<rparr>"
      "\<lparr>expr = NotN (newFromNode example_env ''/missing/file''), withs = [''message'' \<mapsto> ''Hi'']\<rparr>"
      True "example_context\<lparr>rulemiss := True, calls := [GetMatchList ''/missing/file'']\<rparr>"
      "[\<lparr>expr = AllN, withs = [''message'' \<mapsto> ''Bye'']\<rparr>]" aNoresult pMfrom pAny]
  by (simp add: example_env_def example_context_def newFromNode_def MatchN_Eval_def)

section \<open>Properties of the mail-domain classifier\<close>

lemma checkIP_addrs_defined: "fst (checkIP_addrs rs domain addrs) \<noteq> dnsUndef"
  by (induction addrs) auto

lemma checkIP_defined: "fst (checkIP rs domain) \<noteq> dnsUndef"
  by (auto simp: checkIP_def checkIP_addrs_defined split: sum.splits)

lemma dnsUndef_less: "v \<noteq> dnsUndef \<Longrightarrow> dnsUndef < v"
  by (cases v) (simp_all add: less_dnsResult_def)

lemma ToLower_examples:
  "ToLower ''mx1.example.org.'' = ''mx1.example.org.''"
  "ToLower ''mx2.example.org.'' = ''mx2.example.org.''"
  "ToLower ''mx3.example.org.'' = ''mx3.example.org.''"
  "ToLower ''LocalHost.'' = ''localhost.''"
  by code_simp+



lemma ValidDomain_empty_mx_list:
  "ValidDomain (rs\<lparr>LookupMX := \<lambda>name. ([], None)\<rparr>) domain =
     ((dnsUndef, None), [QueryMX (domain @ ''.'')])"
  by (simp add: ValidDomain_def)








lemma fold_max_ge: "(a::dnsResult) \<le> fold max xs a"
proof (induction xs arbitrary: a)
  case Nil
  then show ?case by simp
next
  case (Cons x xs)
  have "a \<le> max x a" by simp
  also have "\<dots> \<le> fold max xs (max x a)" by (rule Cons.IH)
  finally show ?case by simp
qed

lemma fold_max_in: "fold max xs (a::dnsResult) = a \<or> fold max xs a \<in> set xs"
proof (induction xs arbitrary: a)
  case Nil
  then show ?case by simp
next
  case (Cons x xs)
  from Cons.IH[of "max x a"] show ?case by (auto simp: max_def)
qed

lemma find_fold_max:
  assumes "(a::dnsResult) < fold max (map f ms) a"
  shows "\<exists>m. find (\<lambda>m. f m = fold max (map f ms) a) ms = Some m"
proof -
  from assms fold_max_in[of "map f ms" a] have "fold max (map f ms) a \<in> set (map f ms)"
    by auto
  then obtain m0 where "m0 \<in> set ms" "f m0 = fold max (map f ms) a" by auto
  then have "find (\<lambda>m. f m = fold max (map f ms) a) ms \<noteq> None"
    by (auto simp: find_None_iff)
  then show ?thesis by auto
qed

lemma ValidDomain_mxs_best:
  assumes "\<forall>m\<in>set ms. \<not> ((Host m = ''.'' \<and> Pref m = 0) \<or> ToLower (Host m) = ''.'' \<or>
                ToLower (Host m) = ''localhost.'')"
  shows "ValidDomain_mxs rs domain ms valid verr qs =
     ((fold max (map (\<lambda>m. fst (checkIP rs (Host m))) ms) valid,
       (if valid < fold max (map (\<lambda>m. fst (checkIP rs (Host m))) ms) valid
        then (case find (\<lambda>m. fst (checkIP rs (Host m)) =
                           fold max (map (\<lambda>m. fst (checkIP rs (Host m))) ms) valid) ms of
                Some m \<Rightarrow> snd (checkIP rs (Host m))
              | None \<Rightarrow> verr)
        else verr)),
      qs @ map (\<lambda>m. QueryIP (Host m)) ms)"
  using assms
proof (induction ms arbitrary: valid verr qs)
  case Nil
  then show ?case by simp
next
  case (Cons m ms)
  let ?f = "\<lambda>m. fst (checkIP rs (Host m))"
  from Cons.prems have nn: "\<not> (Host m = ''.'' \<and> Pref m = 0)" "ToLower (Host m) \<noteq> ''.''"
    "ToLower (Host m) \<noteq> ''localhost.''"
    and rest: "\<forall>m\<in>set ms. \<not> ((Host m = ''.'' \<and> Pref m = 0) \<or> ToLower (Host m) = ''.'' \<or>
                ToLower (Host m) = ''localhost.'')"
    by auto
  obtain v err where ck: "checkIP rs (Host m) = (v, err)" by (cases "checkIP rs (Host m)")
  show ?case
  proof (cases "valid < v")
    case True
    then have "valid \<le> v" by simp
    then have mx: "max v valid = v" by (rule max.absorb1)
    have step: "ValidDomain_mxs rs domain (m # ms) valid verr qs =
                  ValidDomain_mxs rs domain ms v err (qs @ [QueryIP (Host m)])"
      using nn ck True by (auto simp: Let_def)
    have ge: "v \<le> fold max (map ?f ms) v" by (rule fold_max_ge)
    with True have lt: "valid < fold max (map ?f ms) v" by simp
    show ?thesis
    proof (cases "v < fold max (map ?f ms) v")
      case lt2: True
      then have "?f m \<noteq> fold max (map ?f ms) v" using ck by auto
      moreover from find_fold_max[of v ?f ms] lt2 obtain m' where
        "find (\<lambda>m. ?f m = fold max (map ?f ms) v) ms = Some m'" by blast
      ultimately show ?thesis
        using step Cons.IH[OF rest, of v err "qs @ [QueryIP (Host m)]"] lt lt2 mx ck
        by simp
    next
      case False
      with ge have "fold max (map ?f ms) v = v" by simp
      with step Cons.IH[OF rest, of v err "qs @ [QueryIP (Host m)]"] True mx ck
      show ?thesis by simp
    qed
  next
    case False
    then have "v \<le> valid" by simp
    then have mx: "max v valid = valid" by (rule max.absorb2)
    have step: "ValidDomain_mxs rs domain (m # ms) valid verr qs =
                  ValidDomain_mxs rs domain ms valid verr (qs @ [QueryIP (Host m)])"
      using nn ck False by (auto simp: Let_def)
    show ?thesis
    proof (cases "valid < fold max (map ?f ms) valid")
      case lt: True
      with False have "?f m \<noteq> fold max (map ?f ms) valid" using ck by auto
      with step Cons.IH[OF rest, of valid verr "qs @ [QueryIP (Host m)]"] lt mx ck
      show ?thesis by simp
    next
      case nlt: False
      with step Cons.IH[OF rest, of valid verr "qs @ [QueryIP (Host m)]"] mx ck
      show ?thesis by simp
    qed
  qed
qed

lemma fold_max_undef:
  assumes "xs \<noteq> []" and "\<forall>x\<in>set xs. x \<noteq> dnsUndef"
  shows "fold max xs dnsUndef = Max (set xs) \<and> dnsUndef < fold max xs dnsUndef"
proof -
  from assms(1) obtain x xs' where xs: "xs = x # xs'" by (cases xs) auto
  with assms(2) have "dnsUndef < x" by (simp add: dnsUndef_less)
  then have "dnsUndef \<le> x" by simp
  then have mx: "max x dnsUndef = x" by (rule max.absorb1)
  have "fold max xs dnsUndef = fold max xs' x" using xs mx by simp
  also have "\<dots> = Max (set xs)" using xs Max.set_eq_fold[of x xs'] by simp
  finally have a: "fold max xs dnsUndef = Max (set xs)" .
  have "x \<le> fold max xs' x" by (rule fold_max_ge)
  with \<open>dnsUndef < x\<close> have "dnsUndef < fold max xs' x" by simp
  with xs mx have b: "dnsUndef < fold max xs dnsUndef" by simp
  from a b show ?thesis by simp
qed

text \<open>
  Claim C4. Let the MX lookup succeed and let no MX entry be a null entry (target
  \<^verbatim>\<open>"."\<close> with preference 0, or target \<^verbatim>\<open>"."\<close> or \<^verbatim>\<open>"localhost."\<close> in any letter
  case). Then \<^verbatim>\<open>ValidDomain\<close> calls \<^verbatim>\<open>checkIP\<close> on every target, in order, with no
  early exit. When there is at least one entry, the classification is the maximum
  of the results of \<^verbatim>\<open>checkIP\<close> over all targets in the order
  bad < tempfail < good, and the error is the one \<^verbatim>\<open>checkIP\<close> gave for the first
  target whose result is that maximum.
\<close>

theorem ValidDomain_best_of_mxs:
  assumes "LookupMX rs (domain @ ''.'') = (mxs, None)"
    and "\<forall>m\<in>set mxs. \<not> ((Host m = ''.'' \<and> Pref m = 0) \<or> ToLower (Host m) = ''.'' \<or>
                ToLower (Host m) = ''localhost.'')"
  shows "snd (ValidDomain rs domain) =
           QueryMX (domain @ ''.'') # map (\<lambda>m. QueryIP (Host m)) mxs \<and>
         (mxs \<noteq> [] \<longrightarrow>
            fst (fst (ValidDomain rs domain)) =
              Max (set (map (\<lambda>m. fst (checkIP rs (Host m))) mxs)) \<and>
            (\<exists>m. find (\<lambda>m. fst (checkIP rs (Host m)) = fst (fst (ValidDomain rs domain))) mxs =
                    Some m \<and>
                 snd (fst (ValidDomain rs domain)) = snd (checkIP rs (Host m)))) \<and>
         (mxs = [] \<longrightarrow> fst (ValidDomain rs domain) = (dnsUndef, None))"
proof -
  let ?f = "\<lambda>m. fst (checkIP rs (Host m))"
  let ?V = "fold max (map ?f mxs) dnsUndef"
  note loop = ValidDomain_mxs_best[OF assms(2), of rs domain dnsUndef None "[QueryMX (domain @ ''.'')]"]
  have vd: "ValidDomain rs domain = ValidDomain_mxs rs domain mxs dnsUndef None [QueryMX (domain @ ''.'')]"
    using assms(1) by (simp add: ValidDomain_def)
  have tr: "snd (ValidDomain rs domain) =
           QueryMX (domain @ ''.'') # map (\<lambda>m. QueryIP (Host m)) mxs"
    using vd loop by simp
  have val: "fst (fst (ValidDomain rs domain)) = ?V"
    using vd loop by simp
  have emp: "mxs = [] \<longrightarrow> fst (ValidDomain rs domain) = (dnsUndef, None)"
    using vd by simp
  have ne: "mxs \<noteq> [] \<longrightarrow>
            fst (fst (ValidDomain rs domain)) = Max (set (map ?f mxs)) \<and>
            (\<exists>m. find (\<lambda>m. ?f m = fst (fst (ValidDomain rs domain))) mxs = Some m \<and>
                 snd (fst (ValidDomain rs domain)) = snd (checkIP rs (Host m)))"
  proof
    assume nonempty: "mxs \<noteq> []"
    have "map ?f mxs \<noteq> []" using nonempty by simp
    moreover have "\<forall>x\<in>set (map ?f mxs). x \<noteq> dnsUndef"
      by (auto simp: checkIP_defined)
    ultimately have both: "?V = Max (set (map ?f mxs)) \<and> dnsUndef < ?V"
      by (rule fold_max_undef)
    then have fm: "?V = Max (set (map ?f mxs))" and lt: "dnsUndef < ?V"
      by blast+
    have "Max (set (map ?f mxs)) \<in> set (map ?f mxs)"
      using nonempty by (intro Max_in) simp_all
    with fm have "?V \<in> set (map ?f mxs)" by simp
    then obtain m0 where "m0 \<in> set mxs" "?f m0 = ?V" by auto
    then have "find (\<lambda>m. ?f m = ?V) mxs \<noteq> None"
      by (auto simp: find_None_iff)
    then obtain m where m: "find (\<lambda>m. ?f m = ?V) mxs = Some m" by auto
    have "snd (fst (ValidDomain rs domain)) = snd (checkIP rs (Host m))"
      using vd loop lt m by simp
    with val fm m show "fst (fst (ValidDomain rs domain)) = Max (set (map ?f mxs)) \<and>
            (\<exists>m. find (\<lambda>m. ?f m = fst (fst (ValidDomain rs domain))) mxs = Some m \<and>
                 snd (fst (ValidDomain rs domain)) = snd (checkIP rs (Host m)))"
      by simp
  qed
  from tr ne emp show ?thesis by blast
qed

theorem ValidDomain_best_of_mxs_witness:
  "LookupMX example_resolver ''example.org.'' =
     ([\<lparr>Host = ''mx1.example.org.'', Pref = 10\<rparr>,
       \<lparr>Host = ''mx2.example.org.'', Pref = 20\<rparr>,
       \<lparr>Host = ''mx3.example.org.'', Pref = 30\<rparr>], None) \<and>
   map (\<lambda>m. checkIP example_resolver (Host m))
     [\<lparr>Host = ''mx1.example.org.'', Pref = 10\<rparr>,
      \<lparr>Host = ''mx2.example.org.'', Pref = 20\<rparr>,
      \<lparr>Host = ''mx3.example.org.'', Pref = 30\<rparr>] =
     [(dnsTempfail, Some (LookupError (DNSError ''server misbehaving'' False))),
      (dnsGood, None),
      (dnsBad, Some (NoIPs ''mx3.example.org.''))] \<and>
   ValidDomain example_resolver ''example.org'' =
     ((dnsGood, None),
      [QueryMX ''example.org.'', QueryIP ''mx1.example.org.'', QueryIP ''mx2.example.org.'',
       QueryIP ''mx3.example.org.''])"
proof -
  let ?mxs = "[\<lparr>Host = ''mx1.example.org.'', Pref = 10\<rparr>,
          \<lparr>Host = ''mx2.example.org.'', Pref = 20\<rparr>,
          \<lparr>Host = ''mx3.example.org.'', Pref = (30::16 word)\<rparr>]"
  have h1: "LookupMX example_resolver (''example.org'' @ ''.'') = (?mxs, None)"
    by (simp add: example_resolver_def)
  have h2: "\<forall>m\<in>set ?mxs. \<not> ((Host m = ''.'' \<and> Pref m = 0) \<or> ToLower (Host m) = ''.'' \<or>
                ToLower (Host m) = ''localhost.'')"
    by (simp add: ToLower_examples)
  have ck: "map (\<lambda>m. checkIP example_resolver (Host m)) ?mxs =
     [(dnsTempfail, Some (LookupError (DNSError ''server misbehaving'' False))),
      (dnsGood, None),
      (dnsBad, Some (NoIPs ''mx3.example.org.''))]"
    by (simp add: checkIP_def example_resolver_def serverrstr_def)
  have best: "fst (fst (ValidDomain example_resolver ''example.org'')) =
      Max (set (map (\<lambda>m. fst (checkIP example_resolver (Host m))) ?mxs))"
    using ValidDomain_best_of_mxs[OF h1 h2] by blast
  have ev: "ValidDomain example_resolver ''example.org'' =
     ((dnsGood, None),
      [QueryMX ''example.org.'', QueryIP ''mx1.example.org.'', QueryIP ''mx2.example.org.'',
       QueryIP ''mx3.example.org.''])"
    using h1 by (simp add: ValidDomain_def ToLower_examples Let_def checkIP_def
        example_resolver_def serverrstr_def less_dnsResult_def)
  from h1 ck ev best show ?thesis by simp
qed

end
